theory Spec2Isabelle
  imports
    Main
    "HOL-Library.Multiset"
    "HOL-Library.Char_ord"
    "HOL-Library.List_Lexorder"
    "HOL-Library.Product_Lexorder"
begin

section \<open>The bookshelf catalog of \<^verbatim>\<open>catalog.py\<close>\<close>

text \<open>
  A room holds an ordered list of shelves, each shelf an ordered list of books. The
  catalog distributes a pile of books over the shelves by category (round-robin over the
  sorted categories), sorts every shelf by title, and checks that no category is found
  on two shelves of different names.

  Python's \<^verbatim>\<open>str\<close> is modelled by \<^typ>\<open>string\<close> read as ASCII text, compared
  lexicographically character by character (a proper prefix is smaller), as Python
  compares strings. A room is modelled by value: each position of its shelf list is a
  shelf of its own, with its own list of books.

  The general theorems below never unfold the case folding: they hold for whatever
  \<^verbatim>\<open>str.lower\<close> and \<^verbatim>\<open>str.casefold\<close> compute. Only the worked examples evaluate it.
\<close>

subsection \<open>Data model\<close>

record Book =
  id' :: string
  title :: string
  author :: string
  category :: string
  isbn :: "string option"

record Shelf =
  name :: string
  books :: "Book list"

record Room =
  owner :: string
  shelves :: "Shelf list"

record Catalog =
  room :: Room

text \<open>The exceptions the code can raise, each with its message or key.\<close>

datatype error =
    ValueError string
  | KeyError string
  | AssertionError string

subsection \<open>Case folding of ASCII text\<close>

text \<open>
  On ASCII text \<^verbatim>\<open>str.lower\<close> and \<^verbatim>\<open>str.casefold\<close> agree: the letters
  \<^verbatim>\<open>A\<close> .. \<^verbatim>\<open>Z\<close> (codes 65 .. 90) move to \<^verbatim>\<open>a\<close> .. \<^verbatim>\<open>z\<close> (code + 32), every
  other character stays.
\<close>

definition char_lower :: "char \<Rightarrow> char" where
  "char_lower c =
     (if 65 \<le> (of_char c :: nat) \<and> (of_char c :: nat) \<le> 90
      then char_of ((of_char c :: nat) + 32) else c)"

definition str_lower :: "string \<Rightarrow> string" where
  "str_lower s = map char_lower s"

definition casefold :: "string \<Rightarrow> string" where
  "casefold s = map char_lower s"

subsection \<open>Shelf\<close>

text \<open>\<^verbatim>\<open>self.books.extend(books)\<close>\<close>

definition add_books :: "Shelf \<Rightarrow> Book list \<Rightarrow> Shelf" where
  "add_books sh bs = sh\<lparr>books := books sh @ bs\<rparr>"

text \<open>\<^verbatim>\<open>self.books.sort(key=lambda b: b.title.casefold())\<close>: a stable sort on the key.\<close>

definition sort_books_by_title :: "Shelf \<Rightarrow> Shelf" where
  "sort_books_by_title sh = sh\<lparr>books := sort_key (\<lambda>b. casefold (title b)) (books sh)\<rparr>"

text \<open>\<^verbatim>\<open>{b.category for b in self.books}\<close>\<close>

definition categories :: "Shelf \<Rightarrow> string set" where
  "categories sh = category ` set (books sh)"

text \<open>\<^verbatim>\<open>sh.books.clear()\<close>\<close>

definition clear_books :: "Shelf \<Rightarrow> Shelf" where
  "clear_books sh = sh\<lparr>books := []\<rparr>"

subsection \<open>Room\<close>

definition add_shelf :: "Room \<Rightarrow> Shelf \<Rightarrow> Room" where
  "add_shelf r sh = r\<lparr>shelves := shelves r @ [sh]\<rparr>"

subsection \<open>Catalog: placing books by category\<close>

text \<open>
  The dictionary \<^verbatim>\<open>by_cat\<close> keeps its keys in insertion order, so it is an
  association list. \<^verbatim>\<open>by_cat.setdefault(b.category, []).append(b)\<close> appends the book
  to the list of its key, and adds the key at the end when it is new.
\<close>

fun setdefault_append :: "(string \<times> Book list) list \<Rightarrow> string \<Rightarrow> Book \<Rightarrow> (string \<times> Book list) list" where
  "setdefault_append [] k b = [(k, [b])]"
| "setdefault_append ((k', bs) # d) k b =
     (if k' = k then (k', bs @ [b]) # d else (k', bs) # setdefault_append d k b)"

text \<open>The loop \<^verbatim>\<open>for b in pile\<close> that fills \<^verbatim>\<open>by_cat\<close>.\<close>

fun group_books :: "(string \<times> Book list) list \<Rightarrow> Book list \<Rightarrow> (string \<times> Book list) list" where
  "group_books d [] = d"
| "group_books d (b # pile) = group_books (setdefault_append d (category b) b) pile"

text \<open>
  \<^verbatim>\<open>sorted(by_cat.keys(), key=str.lower)\<close>: the keys in insertion order, sorted
  stably on their lower-case form.
\<close>

definition sorted_categories :: "(string \<times> Book list) list \<Rightarrow> string list" where
  "sorted_categories by_cat = sort_key str_lower (map fst by_cat)"

text \<open>
  The loop \<^verbatim>\<open>for i, cat in enumerate(categories)\<close>, from index \<open>i\<close> on:
  \<^verbatim>\<open>by_cat[cat]\<close> raises \<^verbatim>\<open>KeyError\<close> for a missing key, and the books go to the end of
  the shelf at position \<open>i mod n\<close>.
\<close>

fun place :: "(string \<times> Book list) list \<Rightarrow> nat \<Rightarrow> nat \<Rightarrow> string list \<Rightarrow> Shelf list \<Rightarrow> error + Shelf list" where
  "place by_cat n i [] shs = Inr shs"
| "place by_cat n i (cat # cats) shs =
     (case map_of by_cat cat of
        None \<Rightarrow> Inl (KeyError cat)
      | Some bs \<Rightarrow> place by_cat n (Suc i) cats (shs[i mod n := add_books (shs ! (i mod n)) bs]))"

definition organize_books_by_category :: "Catalog \<Rightarrow> Book list \<Rightarrow> error + Catalog" where
  "organize_books_by_category c pile =
     (if shelves (room c) = [] then Inl (ValueError ''No shelves in the room.'')
      else
        let by_cat = group_books [] pile;
            cats = sorted_categories by_cat;
            cleared = map clear_books (shelves (room c));
            n = length cleared
        in case place by_cat n 0 cats cleared of
             Inl e \<Rightarrow> Inl e
           | Inr shs \<Rightarrow> Inr (c\<lparr>room := (room c)\<lparr>shelves := shs\<rparr>\<rparr>))"

subsection \<open>Catalog: sorting every shelf\<close>

fun sort_shelves :: "Shelf list \<Rightarrow> Shelf list" where
  "sort_shelves [] = []"
| "sort_shelves (shelf # shs) = sort_books_by_title shelf # sort_shelves shs"

definition sort_books_on_all_shelves :: "Catalog \<Rightarrow> Catalog" where
  "sort_books_on_all_shelves c = c\<lparr>room := (room c)\<lparr>shelves := sort_shelves (shelves (room c))\<rparr>\<rparr>"

subsection \<open>Catalog: verifying the constraint\<close>

text \<open>
  The message
  \<^verbatim>\<open>f"Category '{cat}' was found on shelves '{seen[cat]}' and '{shelf.name}'"\<close>.
\<close>

definition quoted :: "string \<Rightarrow> string" where
  "quoted s = CHR 0x27 # s @ [CHR 0x27]"

definition found_on_shelves :: "string \<Rightarrow> string \<Rightarrow> string \<Rightarrow> string" where
  "found_on_shelves cat prev nm =
     ''Category '' @ quoted cat @ '' was found on shelves '' @ quoted prev @ '' and '' @ quoted nm"

text \<open>
  The inner loop \<^verbatim>\<open>for cat in shelf.categories()\<close> over the categories of one shelf,
  given in the order the set is iterated in; \<^verbatim>\<open>seen\<close> is a dictionary read by key
  only, so a map.
\<close>

fun check_categories :: "string \<Rightarrow> string list \<Rightarrow> (string \<rightharpoonup> string) \<Rightarrow> error + (string \<rightharpoonup> string)" where
  "check_categories nm [] seen = Inr seen"
| "check_categories nm (cat # cats) seen =
     (case seen cat of
        Some prev \<Rightarrow>
          if prev \<noteq> nm then Inl (AssertionError (found_on_shelves cat prev nm))
          else check_categories nm cats (seen(cat \<mapsto> nm))
      | None \<Rightarrow> check_categories nm cats (seen(cat \<mapsto> nm)))"

text \<open>
  The outer loop \<^verbatim>\<open>for shelf in self.room.shelves\<close>. Python does not fix the order in
  which a set of strings is iterated, so the order is a parameter: \<open>iter sh\<close> lists
  the categories of the shelf \<open>sh\<close> in the order the run visits them.
\<close>

fun verify_shelves :: "(Shelf \<Rightarrow> string list) \<Rightarrow> Shelf list \<Rightarrow> (string \<rightharpoonup> string) \<Rightarrow> error + unit" where
  "verify_shelves iter [] seen = Inr ()"
| "verify_shelves iter (shelf # shs) seen =
     (case check_categories (name shelf) (iter shelf) seen of
        Inl e \<Rightarrow> Inl e
      | Inr seen' \<Rightarrow> verify_shelves iter shs seen')"

definition verify_constraint_same_category_same_shelf :: "(Shelf \<Rightarrow> string list) \<Rightarrow> Catalog \<Rightarrow> error + unit" where
  "verify_constraint_same_category_same_shelf iter c = verify_shelves iter (shelves (room c)) Map.empty"

text \<open>One iteration order of the categories of a shelf: that of their last book on it.\<close>

definition category_list :: "Shelf \<Rightarrow> string list" where
  "category_list sh = remdups (map category (books sh))"

subsection \<open>The demonstration data\<close>

text \<open>\<^verbatim>\<open>Book(id, title, author, category)\<close>: the field \<^verbatim>\<open>isbn\<close> defaults to \<^verbatim>\<open>None\<close>.\<close>

definition mk_book :: "string \<Rightarrow> string \<Rightarrow> string \<Rightarrow> string \<Rightarrow> Book" where
  "mk_book i t a c = \<lparr>id' = i, title = t, author = a, category = c, isbn = None\<rparr>"

text \<open>\<^verbatim>\<open>Shelf(name)\<close>: the field \<^verbatim>\<open>books\<close> defaults to a fresh empty list.\<close>

definition mk_shelf :: "string \<Rightarrow> Shelf" where
  "mk_shelf nm = \<lparr>name = nm, books = []\<rparr>"

definition demo_pile :: "Book list" where
  "demo_pile =
     [mk_book ''b001'' ''A Tale of Two Cities'' ''Charles Dickens'' ''Classic'',
      mk_book ''b002'' ''Brave New World'' ''Aldous Huxley'' ''Dystopian'',
      mk_book ''b003'' ''The Pragmatic Programmer'' ''Andrew Hunt'' ''Programming'',
      mk_book ''b004'' ''Clean Code'' ''Robert C. Martin'' ''Programming'',
      mk_book ''b005'' ''Do Androids Dream of Electric Sheep?'' ''Philip K. Dick'' ''Sci-Fi'',
      mk_book ''b006'' ''I, Robot'' ''Isaac Asimov'' ''Sci-Fi'',
      mk_book ''b007'' ''The Name of the Rose'' ''Umberto Eco'' ''Mystery'']"

definition demo_catalog :: Catalog where
  "demo_catalog =
     \<lparr>room = \<lparr>owner = ''Bob'', shelves = [mk_shelf ''Left'', mk_shelf ''Right'', mk_shelf ''Top'']\<rparr>\<rparr>"

text \<open>The demonstration catalog as \<^verbatim>\<open>organize_books_by_category\<close> leaves it.\<close>

definition demo_placed :: Catalog where
  "demo_placed =
     \<lparr>room = \<lparr>owner = ''Bob'', shelves =
       [\<lparr>name = ''Left'', books =
           [mk_book ''b001'' ''A Tale of Two Cities'' ''Charles Dickens'' ''Classic'',
            mk_book ''b003'' ''The Pragmatic Programmer'' ''Andrew Hunt'' ''Programming'',
            mk_book ''b004'' ''Clean Code'' ''Robert C. Martin'' ''Programming'']\<rparr>,
        \<lparr>name = ''Right'', books =
           [mk_book ''b002'' ''Brave New World'' ''Aldous Huxley'' ''Dystopian'',
            mk_book ''b005'' ''Do Androids Dream of Electric Sheep?'' ''Philip K. Dick'' ''Sci-Fi'',
            mk_book ''b006'' ''I, Robot'' ''Isaac Asimov'' ''Sci-Fi'']\<rparr>,
        \<lparr>name = ''Top'', books =
           [mk_book ''b007'' ''The Name of the Rose'' ''Umberto Eco'' ''Mystery'']\<rparr>]\<rparr>\<rparr>"

text \<open>Two shelves of one name that both hold books of one category.\<close>

definition twin_shelves :: Catalog where
  "twin_shelves =
     \<lparr>room = \<lparr>owner = ''Bob'', shelves =
       [\<lparr>name = ''Left'', books =
           [mk_book ''b001'' ''A Tale of Two Cities'' ''Charles Dickens'' ''Classic'']\<rparr>,
        \<lparr>name = ''Left'', books =
           [mk_book ''b008'' ''Emma'' ''Jane Austen'' ''Classic'']\<rparr>]\<rparr>\<rparr>"


text \<open>A pile whose two categories differ in case only, and a room of two shelves.\<close>

definition tie_pile :: "Book list" where
  "tie_pile =
     [mk_book ''t1'' ''First'' ''A'' ''abc'',
      mk_book ''t2'' ''Second'' ''B'' ''ABC'']"

definition two_shelves :: Catalog where
  "two_shelves = \<lparr>room = \<lparr>owner = ''Bob'', shelves = [mk_shelf ''Left'', mk_shelf ''Right'']\<rparr>\<rparr>"

subsection \<open>Notions used to state the properties\<close>

text \<open>The order in which \<^verbatim>\<open>organize_books_by_category\<close> visits the categories of a pile.\<close>

definition visiting_order :: "Book list \<Rightarrow> string list" where
  "visiting_order pile = sorted_categories (group_books [] pile)"

text \<open>The books of one category, in the order of the pile.\<close>

definition tag_group :: "Book list \<Rightarrow> string \<Rightarrow> Book list" where
  "tag_group pile cat = filter (\<lambda>b. category b = cat) pile"

text \<open>The distinct elements of a list, each at the place of its first occurrence.\<close>

fun first_seen :: "'a list \<Rightarrow> 'a list" where
  "first_seen [] = []"
| "first_seen (x # xs) = x # filter (\<lambda>y. y \<noteq> x) (first_seen xs)"

text \<open>
  Round-robin dealing: the groups of the categories \<open>cats\<close>, numbered from \<open>i\<close>, whose
  number is \<open>j\<close> modulo \<open>n\<close>, one after the other.
\<close>

definition dealt :: "(string \<Rightarrow> Book list) \<Rightarrow> nat \<Rightarrow> nat \<Rightarrow> string list \<Rightarrow> nat \<Rightarrow> Book list" where
  "dealt grp n i cats j =
     concat (map (\<lambda>k. grp (cats ! k)) (filter (\<lambda>k. (i + k) mod n = j) [0..<length cats]))"

text \<open>
  The visiting order in the words of the specification, for comparison with
  \<^const>\<open>visiting_order\<close>: ascending on the lower-case form of the category, and
  categories of equal lower-case form in the byte order of the categories themselves.
\<close>

definition claimed_order :: "Book list \<Rightarrow> string list" where
  "claimed_order pile = sort_key (\<lambda>c. (str_lower c, c)) (first_seen (map category pile))"

text \<open>
  What \<^verbatim>\<open>verify_constraint_same_category_same_shelf\<close> checks, shelf against dictionary
  and shelf against shelf: the dictionary binds no category of the shelf to another name,
  and two shelves that share a category have the same name.
\<close>

definition agrees :: "(string \<rightharpoonup> string) \<Rightarrow> Shelf \<Rightarrow> bool" where
  "agrees seen sh \<longleftrightarrow> (\<forall>cat\<in>categories sh. \<forall>p. seen cat = Some p \<longrightarrow> p = name sh)"

definition compatible :: "Shelf \<Rightarrow> Shelf \<Rightarrow> bool" where
  "compatible sh1 sh2 \<longleftrightarrow> (\<forall>cat\<in>categories sh1. cat \<in> categories sh2 \<longrightarrow> name sh1 = name sh2)"

text \<open>
  A clash: the category \<open>cat\<close> is on the shelf at position \<open>i\<close> and on the later shelf
  at position \<open>j\<close>, and the two shelves have different names.
\<close>

definition clash :: "Shelf list \<Rightarrow> nat \<Rightarrow> nat \<Rightarrow> string \<Rightarrow> bool" where
  "clash shs i j cat \<longleftrightarrow>
     i < j \<and> j < length shs \<and> cat \<in> categories (shs ! i) \<and> cat \<in> categories (shs ! j) \<and>
     name (shs ! i) \<noteq> name (shs ! j)"

section \<open>Grouping the pile\<close>

lemma set_first_seen: "set (first_seen xs) = set xs"
  by (induction xs) auto

lemma distinct_first_seen: "distinct (first_seen xs)"
  by (induction xs) (auto simp: set_first_seen)

lemma keys_setdefault_append:
  "map fst (setdefault_append d k b) = (if k \<in> fst ` set d then map fst d else map fst d @ [k])"
  by (induction d k b rule: setdefault_append.induct) auto

lemma keyset_setdefault_append:
  "fst ` set (setdefault_append d k b) = insert k (fst ` set d)"
  by (induction d k b rule: setdefault_append.induct) auto

lemma map_of_setdefault_append:
  "map_of (setdefault_append d k b) =
     (map_of d)(k \<mapsto> (case map_of d k of None \<Rightarrow> [b] | Some bs \<Rightarrow> bs @ [b]))"
  by (induction d k b rule: setdefault_append.induct) (auto simp: fun_eq_iff)

lemma filter_notin_neq:
  "k \<in> A \<Longrightarrow> filter (\<lambda>x. x \<noteq> k \<and> x \<notin> A) xs = filter (\<lambda>x. x \<notin> A) xs"
  by (induction xs) auto

text \<open>The keys of the dictionary are the categories of the pile in first-seen order.\<close>

lemma keys_group_books:
  "map fst (group_books d pile) =
     map fst d @ filter (\<lambda>k. k \<notin> fst ` set d) (first_seen (map category pile))"
proof (induction pile arbitrary: d)
  case Nil
  then show ?case by simp
next
  case (Cons b pile)
  show ?case
  proof (cases "category b \<in> fst ` set d")
    case True
    then have "insert (category b) (fst ` set d) = fst ` set d" by blast
    then show ?thesis
      using True
      by (simp add: Cons.IH keys_setdefault_append keyset_setdefault_append filter_notin_neq)
  next
    case False
    then show ?thesis
      by (simp add: Cons.IH keys_setdefault_append keyset_setdefault_append)
  qed
qed

text \<open>Each key holds the books of its category, in the order of the pile.\<close>

lemma map_of_group_books:
  "map_of (group_books d pile) cat =
     (case map_of d cat of
        Some bs \<Rightarrow> Some (bs @ filter (\<lambda>b. category b = cat) pile)
      | None \<Rightarrow> if cat \<in> category ` set pile then Some (filter (\<lambda>b. category b = cat) pile) else None)"
proof (induction pile arbitrary: d)
  case Nil
  then show ?case by (simp split: option.splits)
next
  case (Cons b pile)
  show ?case
    by (simp add: Cons.IH map_of_setdefault_append split: option.splits)
qed

lemma visiting_order_first_seen:
  "visiting_order pile = sort_key str_lower (first_seen (map category pile))"
  by (simp add: visiting_order_def sorted_categories_def keys_group_books)

lemma set_visiting_order: "set (visiting_order pile) = category ` set pile"
  by (simp add: visiting_order_first_seen set_first_seen)

lemma distinct_visiting_order: "distinct (visiting_order pile)"
  by (simp add: visiting_order_first_seen distinct_first_seen)

lemma group_of_visited:
  "cat \<in> set (visiting_order pile) \<Longrightarrow> map_of (group_books [] pile) cat = Some (tag_group pile cat)"
  by (simp add: set_visiting_order map_of_group_books tag_group_def)

section \<open>The round-robin loop\<close>

lemma filter_upt_Suc:
  "filter P [0..<Suc m] = (if P 0 then [0] else []) @ map Suc (filter (\<lambda>k. P (Suc k)) [0..<m])"
proof -
  have "[0..<Suc m] = 0 # map Suc [0..<m]"
    by (simp add: upt_conv_Cons map_Suc_upt del: upt_Suc)
  then show ?thesis
    by (simp add: filter_map comp_def del: upt_Suc)
qed

lemma dealt_Nil: "dealt grp n i [] j = []"
  by (simp add: dealt_def)

lemma dealt_Cons:
  "dealt grp n i (cat # cats) j = (if i mod n = j then grp cat else []) @ dealt grp n (Suc i) cats j"
proof -
  have "dealt grp n i (cat # cats) j =
      concat (map (\<lambda>k. grp ((cat # cats) ! k)) (filter (\<lambda>k. (i + k) mod n = j) [0..<Suc (length cats)]))"
    by (simp add: dealt_def del: upt_Suc)
  also have "\<dots> = (if i mod n = j then grp cat else []) @ dealt grp n (Suc i) cats j"
    by (simp only: filter_upt_Suc) (simp add: dealt_def comp_def)
  finally show ?thesis .
qed

text \<open>
  The loop never misses a key it was given, and it leaves on shelf \<open>j\<close> what the shelf
  held before, followed by the groups dealt to \<open>j\<close>.
\<close>

lemma place_dealt:
  assumes "\<forall>cat\<in>set cats. map_of by_cat cat = Some (grp cat)"
      and "n = length shs" and "0 < n"
  shows "place by_cat n i cats shs =
           Inr (map (\<lambda>j. (shs ! j)\<lparr>books := books (shs ! j) @ dealt grp n i cats j\<rparr>) [0..<n])"
  using assms
proof (induction cats arbitrary: i shs)
  case Nil
  then show ?case
    by (simp add: dealt_Nil map_nth)
next
  case (Cons cat cats)
  let ?shs = "shs[i mod n := add_books (shs ! (i mod n)) (grp cat)]"
  have lt: "i mod n < length shs"
    using Cons.prems by simp
  have step: "place by_cat n i (cat # cats) shs = place by_cat n (Suc i) cats ?shs"
    using Cons.prems by simp
  have ih: "place by_cat n (Suc i) cats ?shs =
      Inr (map (\<lambda>j. (?shs ! j)\<lparr>books := books (?shs ! j) @ dealt grp n (Suc i) cats j\<rparr>) [0..<n])"
    using Cons.prems by (intro Cons.IH) simp_all
  have "(?shs ! j)\<lparr>books := books (?shs ! j) @ dealt grp n (Suc i) cats j\<rparr> =
        (shs ! j)\<lparr>books := books (shs ! j) @ dealt grp n i (cat # cats) j\<rparr>" if "j < n" for j
    using that lt Cons.prems(2)
    by (simp add: dealt_Cons nth_list_update add_books_def)
  then have "map (\<lambda>j. (?shs ! j)\<lparr>books := books (?shs ! j) @ dealt grp n (Suc i) cats j\<rparr>) [0..<n] =
        map (\<lambda>j. (shs ! j)\<lparr>books := books (shs ! j) @ dealt grp n i (cat # cats) j\<rparr>) [0..<n]"
    by simp
  with step ih show ?case by simp
qed

text \<open>What \<^verbatim>\<open>organize_books_by_category\<close> returns in a room that has shelves.\<close>

lemma organize_shelves:
  assumes "shelves (room c) \<noteq> []"
  shows "organize_books_by_category c pile =
     Inr (c\<lparr>room := (room c)\<lparr>shelves :=
        map (\<lambda>j. (shelves (room c) ! j)\<lparr>books :=
              dealt (tag_group pile) (length (shelves (room c))) 0 (visiting_order pile) j\<rparr>)
          [0..<length (shelves (room c))]\<rparr>\<rparr>)"
proof -
  let ?shs = "shelves (room c)"
  let ?cleared = "map clear_books ?shs"
  let ?n = "length ?cleared"
  have n: "0 < ?n" using assms by simp
  have grp: "\<forall>cat\<in>set (visiting_order pile). map_of (group_books [] pile) cat = Some (tag_group pile cat)"
    by (simp add: group_of_visited)
  have "place (group_books [] pile) ?n 0 (visiting_order pile) ?cleared =
      Inr (map (\<lambda>j. (?cleared ! j)\<lparr>books := books (?cleared ! j) @
              dealt (tag_group pile) ?n 0 (visiting_order pile) j\<rparr>) [0..<?n])"
    using grp n by (intro place_dealt) simp_all
  also have "map (\<lambda>j. (?cleared ! j)\<lparr>books := books (?cleared ! j) @
              dealt (tag_group pile) ?n 0 (visiting_order pile) j\<rparr>) [0..<?n] =
      map (\<lambda>j. (?shs ! j)\<lparr>books := dealt (tag_group pile) (length ?shs) 0 (visiting_order pile) j\<rparr>)
          [0..<length ?shs]"
    by (simp add: clear_books_def)
  finally show ?thesis
    using assms by (simp add: organize_books_by_category_def Let_def visiting_order_def)
qed


section \<open>What the shelves receive\<close>

lemma dealt_from_0:
  "dealt grp n 0 cats j =
     concat (map (\<lambda>i. grp (cats ! i)) (filter (\<lambda>i. i mod n = j) [0..<length cats]))"
  by (simp add: dealt_def)


lemma sum_list_mset_none:
  "c \<notin> set xs \<Longrightarrow> (\<Sum>x\<leftarrow>xs. if c = x then (M::'a multiset) else {#}) = {#}"
  by (induction xs) auto

lemma sum_list_mset_single:
  "distinct xs \<Longrightarrow> c \<in> set xs \<Longrightarrow> (\<Sum>x\<leftarrow>xs. if c = x then (M::'a multiset) else {#}) = M"
  by (induction xs) (auto simp: sum_list_mset_none)

lemma sum_dealt:
  assumes "0 < n"
  shows "(\<Sum>j\<leftarrow>[0..<n]. mset (dealt grp n i cats j)) = (\<Sum>cat\<leftarrow>cats. mset (grp cat))"
proof (induction cats arbitrary: i)
  case Nil
  then show ?case by (simp add: dealt_Nil)
next
  case (Cons cat cats)
  have pt: "mset (dealt grp n i (cat # cats) j) =
        (if i mod n = j then mset (grp cat) else {#}) + mset (dealt grp n (Suc i) cats j)" for j
    by (simp add: dealt_Cons)
  have "(\<Sum>j\<leftarrow>[0..<n]. mset (dealt grp n i (cat # cats) j)) =
        (\<Sum>j\<leftarrow>[0..<n]. if i mod n = j then mset (grp cat) else {#}) +
        (\<Sum>j\<leftarrow>[0..<n]. mset (dealt grp n (Suc i) cats j))"
    by (simp only: pt sum_list_addf)
  also have "\<dots> = mset (grp cat) + (\<Sum>c\<leftarrow>cats. mset (grp c))"
    using assms by (simp add: sum_list_mset_single Cons.IH)
  finally show ?case by simp
qed

lemma sum_tag_groups:
  assumes "distinct cats" and "category ` set pile \<subseteq> set cats"
  shows "(\<Sum>cat\<leftarrow>cats. mset (tag_group pile cat)) = mset pile"
  using assms(2)
proof (induction pile)
  case Nil
  then show ?case by (simp add: tag_group_def)
next
  case (Cons b pile)
  have pt: "mset (tag_group (b # pile) cat) =
        (if category b = cat then {#b#} else {#}) + mset (tag_group pile cat)" for cat
    by (simp add: tag_group_def)
  have "(\<Sum>cat\<leftarrow>cats. mset (tag_group (b # pile) cat)) =
        (\<Sum>cat\<leftarrow>cats. if category b = cat then {#b#} else {#}) +
        (\<Sum>cat\<leftarrow>cats. mset (tag_group pile cat))"
    by (simp only: pt sum_list_addf)
  also have "\<dots> = {#b#} + mset pile"
    using Cons assms(1) by (simp add: sum_list_mset_single)
  finally show ?case by simp
qed

lemma dealt_empty:
  "\<forall>k<length cats. (i + k) mod n \<noteq> j \<Longrightarrow> dealt grp n i cats j = []"
  by (simp add: dealt_def filter_empty_conv)

lemma filter_tag_group_same:
  "filter (\<lambda>b. category b = cat) (tag_group pile cat) = tag_group pile cat"
  by (simp add: tag_group_def)

lemma filter_tag_group_other:
  "c0 \<noteq> cat \<Longrightarrow> filter (\<lambda>b. category b = cat) (tag_group pile c0) = []"
  by (auto simp: tag_group_def filter_empty_conv)

lemma filter_dealt:
  assumes "distinct cats"
  shows "filter (\<lambda>b. category b = cat) (dealt (tag_group pile) n i cats j) =
     (if \<exists>k<length cats. cats ! k = cat \<and> (i + k) mod n = j then tag_group pile cat else [])"
  using assms
proof (induction cats arbitrary: i)
  case Nil
  then show ?case by (simp add: dealt_Nil)
next
  case (Cons c0 cats)
  have split: "filter (\<lambda>b. category b = cat) (dealt (tag_group pile) n i (c0 # cats) j) =
      (if i mod n = j then filter (\<lambda>b. category b = cat) (tag_group pile c0) else []) @
      filter (\<lambda>b. category b = cat) (dealt (tag_group pile) n (Suc i) cats j)"
    by (simp add: dealt_Cons)
  have ex: "(\<exists>k<length (c0 # cats). (c0 # cats) ! k = cat \<and> (i + k) mod n = j) \<longleftrightarrow>
      (c0 = cat \<and> i mod n = j) \<or> (\<exists>k<length cats. cats ! k = cat \<and> (Suc i + k) mod n = j)"
    by (simp add: Ex_less_Suc2)
  have ih: "filter (\<lambda>b. category b = cat) (dealt (tag_group pile) n (Suc i) cats j) =
     (if \<exists>k<length cats. cats ! k = cat \<and> (Suc i + k) mod n = j then tag_group pile cat else [])"
    using Cons.prems by (intro Cons.IH) simp
  show ?case
  proof (cases "c0 = cat")
    case True
    have "\<not> (\<exists>k<length cats. cats ! k = c0)"
      using Cons.prems by (auto simp: in_set_conv_nth)
    with True have no: "\<not> (\<exists>k<length cats. cats ! k = cat \<and> (Suc i + k) mod n = j)" by blast
    show ?thesis
      unfolding split ex ih using True no by (auto simp: filter_tag_group_same)
  next
    case False
    show ?thesis
      unfolding split ex ih using False by (simp add: filter_tag_group_other)
  qed
qed

lemma mem_dealt:
  assumes "distinct cats"
  shows "b \<in> set (dealt (tag_group pile) n i cats j) \<longleftrightarrow>
           b \<in> set pile \<and> (\<exists>k<length cats. cats ! k = category b \<and> (i + k) mod n = j)"
proof -
  have "b \<in> set (dealt (tag_group pile) n i cats j) \<longleftrightarrow>
        b \<in> set (filter (\<lambda>x. category x = category b) (dealt (tag_group pile) n i cats j))"
    by simp
  also have "\<dots> \<longleftrightarrow> b \<in> set pile \<and> (\<exists>k<length cats. cats ! k = category b \<and> (i + k) mod n = j)"
    unfolding filter_dealt [OF assms] by (auto simp: tag_group_def)
  finally show ?thesis .
qed

lemma dealt_one_shelf:
  assumes "distinct cats"
      and "b1 \<in> set (dealt (tag_group pile) n i cats j1)"
      and "b2 \<in> set (dealt (tag_group pile) n i cats j2)"
      and "category b1 = category b2"
  shows "j1 = j2"
proof -
  from assms(2) obtain k1 where k1: "k1 < length cats" "cats ! k1 = category b1" "(i + k1) mod n = j1"
    unfolding mem_dealt [OF assms(1)] by blast
  from assms(3) obtain k2 where k2: "k2 < length cats" "cats ! k2 = category b2" "(i + k2) mod n = j2"
    unfolding mem_dealt [OF assms(1)] by blast
  have "cats ! k1 = cats ! k2"
    using k1(2) k2(2) assms(4) by simp
  then have "k1 = k2"
    using nth_eq_iff_index_eq [OF assms(1) k1(1) k2(1)] by simp
  with k1 k2 show ?thesis by simp
qed


section \<open>The verification loop\<close>

lemma check_categories_Inr:
  "check_categories nm cats seen = Inr seen' \<longleftrightarrow>
     (\<forall>cat\<in>set cats. \<forall>p. seen cat = Some p \<longrightarrow> p = nm) \<and>
     seen' = (\<lambda>c. if c \<in> set cats then Some nm else seen c)"
proof (induction cats arbitrary: seen)
  case Nil
  then show ?case by auto
next
  case (Cons cat cats)
  show ?case
  proof (cases "seen cat")
    case None
    then show ?thesis
      by (auto simp: Cons.IH fun_eq_iff)
  next
    case (Some prev)
    then show ?thesis
      by (auto simp: Cons.IH fun_eq_iff)
  qed
qed


lemma compatible_sym: "compatible sh1 sh2 \<Longrightarrow> compatible sh2 sh1"
  by (auto simp: compatible_def)

lemma compatible_refl: "compatible sh sh"
  by (simp add: compatible_def)

lemma agrees_bind:
  "agrees seen sh \<Longrightarrow>
   agrees (\<lambda>c. if c \<in> categories sh then Some (name sh) else seen c) sh2 \<longleftrightarrow>
     agrees seen sh2 \<and> compatible sh sh2"
  unfolding agrees_def compatible_def by (auto split: if_splits) 

lemma verify_shelves_Inr:
  assumes "\<forall>sh. set (iter sh) = categories sh"
  shows "verify_shelves iter shs seen = Inr () \<longleftrightarrow>
     (\<forall>sh\<in>set shs. agrees seen sh) \<and> (\<forall>sh1\<in>set shs. \<forall>sh2\<in>set shs. compatible sh1 sh2)"
proof (induction shs arbitrary: seen)
  case Nil
  then show ?case by simp
next
  case (Cons sh shs)
  let ?seen' = "\<lambda>c. if c \<in> categories sh then Some (name sh) else seen c"
  show ?case
  proof (cases "agrees seen sh")
    case True
    then have chk: "check_categories (name sh) (iter sh) seen = Inr ?seen'"
      using assms by (simp add: check_categories_Inr agrees_def)
    have "verify_shelves iter (sh # shs) seen = Inr () \<longleftrightarrow>
       (\<forall>sh2\<in>set shs. agrees ?seen' sh2) \<and> (\<forall>sh1\<in>set shs. \<forall>sh2\<in>set shs. compatible sh1 sh2)"
      by (simp add: chk Cons.IH)
    also have "(\<forall>sh2\<in>set shs. agrees ?seen' sh2) \<longleftrightarrow>
       (\<forall>sh2\<in>set shs. agrees seen sh2 \<and> compatible sh sh2)"
      using agrees_bind [OF True] by simp
    finally show ?thesis
      using True compatible_sym compatible_refl by auto
  next
    case False
    then have "\<forall>seen'. check_categories (name sh) (iter sh) seen \<noteq> Inr seen'"
      using assms by (simp add: check_categories_Inr agrees_def)
    then have "verify_shelves iter (sh # shs) seen \<noteq> Inr ()"
      by (auto split: sum.splits)
    with False show ?thesis by auto
  qed
qed

lemma verify_all_compatible:
  assumes "\<forall>sh. set (iter sh) = categories sh"
  shows "verify_constraint_same_category_same_shelf iter c = Inr () \<longleftrightarrow>
           (\<forall>sh1\<in>set (shelves (room c)). \<forall>sh2\<in>set (shelves (room c)). compatible sh1 sh2)"
  by (simp add: verify_constraint_same_category_same_shelf_def verify_shelves_Inr [OF assms] agrees_def)



lemma all_compatible_nth:
  "(\<forall>sh1\<in>set shs. \<forall>sh2\<in>set shs. compatible sh1 sh2) \<longleftrightarrow>
   (\<forall>j<length shs. \<forall>i<j. compatible (shs ! i) (shs ! j))"
proof
  assume "\<forall>sh1\<in>set shs. \<forall>sh2\<in>set shs. compatible sh1 sh2"
  then show "\<forall>j<length shs. \<forall>i<j. compatible (shs ! i) (shs ! j)"
    by simp
next
  assume r: "\<forall>j<length shs. \<forall>i<j. compatible (shs ! i) (shs ! j)"
  have "compatible (shs ! i) (shs ! j)" if "i < length shs" "j < length shs" for i j
  proof (cases i j rule: linorder_cases)
    case less
    with r that show ?thesis by simp
  next
    case equal
    then show ?thesis by (simp add: compatible_refl)
  next
    case greater
    with r that have "compatible (shs ! j) (shs ! i)" by simp
    then show ?thesis by (rule compatible_sym)
  qed
  then show "\<forall>sh1\<in>set shs. \<forall>sh2\<in>set shs. compatible sh1 sh2"
    by (auto simp: in_set_conv_nth)
qed


text \<open>The check passes exactly when there is no clash.\<close>

lemma verify_passes:
  assumes "\<forall>sh. set (iter sh) = categories sh"
  shows "verify_constraint_same_category_same_shelf iter c = Inr () \<longleftrightarrow>
           \<not> (\<exists>i j cat. clash (shelves (room c)) i j cat)"
proof -
  have "verify_constraint_same_category_same_shelf iter c = Inr () \<longleftrightarrow>
      (\<forall>j<length (shelves (room c)). \<forall>i<j. compatible (shelves (room c) ! i) (shelves (room c) ! j))"
    by (simp only: verify_all_compatible [OF assms] all_compatible_nth)
  also have "\<dots> \<longleftrightarrow> \<not> (\<exists>i j cat. clash (shelves (room c)) i j cat)"
    unfolding compatible_def clash_def by blast
  finally show ?thesis .
qed



lemma category_list_enumerates: "\<forall>sh. set (category_list sh) = categories sh"
  by (simp add: category_list_def categories_def)

lemma demo_placed_verified:
  "verify_constraint_same_category_same_shelf category_list demo_placed = Inr ()"
  by code_simp


section \<open>Sorting the shelves\<close>

lemma sort_shelves_map: "sort_shelves shs = map sort_books_by_title shs"
  by (induction shs) simp_all

lemma categories_sort_books_by_title: "categories (sort_books_by_title sh) = categories sh"
  by (simp add: categories_def sort_books_by_title_def)

lemma name_sort_books_by_title: "name (sort_books_by_title sh) = name sh"
  by (simp add: sort_books_by_title_def)

lemma compatible_sort_books_by_title:
  "compatible (sort_books_by_title sh1) (sort_books_by_title sh2) \<longleftrightarrow> compatible sh1 sh2"
  by (simp add: compatible_def categories_sort_books_by_title name_sort_books_by_title)

section \<open>The demonstration run\<close>

lemma demo_visiting_order:
  "visiting_order demo_pile = [''Classic'', ''Dystopian'', ''Mystery'', ''Programming'', ''Sci-Fi'']"
  by code_simp

lemma demo_organized: "organize_books_by_category demo_catalog demo_pile = Inr demo_placed"
  by code_simp

section \<open>Properties of placing\<close>

text \<open>
  C4. \<^verbatim>\<open>organize_books_by_category\<close> raises its \<^verbatim>\<open>ValueError\<close> exactly when the room
  has no shelf, whatever the pile holds (the empty pile too); in a room with a shelf it
  raises nothing at all.
\<close>

theorem organize_raises_iff_no_shelves:
  "(organize_books_by_category c pile = Inl (ValueError ''No shelves in the room.'')
      \<longleftrightarrow> shelves (room c) = []) \<and>
   ((\<exists>e. organize_books_by_category c pile = Inl e) \<longleftrightarrow> shelves (room c) = [])"
proof (cases "shelves (room c) = []")
  case True
  then show ?thesis by (simp add: organize_books_by_category_def)
next
  case False
  then show ?thesis by (simp add: organize_shelves)
qed

theorem organize_raises_iff_no_shelves_witness:
  "organize_books_by_category \<lparr>room = \<lparr>owner = ''Bob'', shelves = []\<rparr>\<rparr> []
     = Inl (ValueError ''No shelves in the room.'') \<and>
   organize_books_by_category \<lparr>room = \<lparr>owner = ''Bob'', shelves = []\<rparr>\<rparr> demo_pile
     = Inl (ValueError ''No shelves in the room.'') \<and>
   \<not> (\<exists>e. organize_books_by_category demo_catalog [] = Inl e)"
  using organize_raises_iff_no_shelves [of "\<lparr>room = \<lparr>owner = ''Bob'', shelves = []\<rparr>\<rparr>" "[]"]
    organize_raises_iff_no_shelves [of "\<lparr>room = \<lparr>owner = ''Bob'', shelves = []\<rparr>\<rparr>" demo_pile]
    organize_raises_iff_no_shelves [of demo_catalog "[]"]
  by (simp add: demo_catalog_def)

text \<open>
  C8. In a room with at least one shelf, placing the empty pile succeeds and leaves
  every shelf empty, whatever the shelves held before; the shelves keep their names.
\<close>

theorem organize_empty_pile:
  assumes "shelves (room c) \<noteq> []"
  shows "\<exists>c'. organize_books_by_category c [] = Inr c' \<and>
           (\<forall>sh\<in>set (shelves (room c')). books sh = []) \<and>
           map name (shelves (room c')) = map name (shelves (room c))"
  using assms
  by (simp add: organize_books_by_category_def sorted_categories_def clear_books_def comp_def)

theorem organize_empty_pile_witness:
  "shelves (room \<lparr>room = \<lparr>owner = ''Bob'', shelves = [\<lparr>name = ''Left'', books = demo_pile\<rparr>]\<rparr>\<rparr>) \<noteq> [] \<and>
   organize_books_by_category
       \<lparr>room = \<lparr>owner = ''Bob'', shelves = [\<lparr>name = ''Left'', books = demo_pile\<rparr>]\<rparr>\<rparr> []
     = Inr \<lparr>room = \<lparr>owner = ''Bob'', shelves = [\<lparr>name = ''Left'', books = []\<rparr>]\<rparr>\<rparr>"
  using organize_empty_pile [of "\<lparr>room = \<lparr>owner = ''Bob'', shelves = [\<lparr>name = ''Left'', books = demo_pile\<rparr>]\<rparr>\<rparr>"]
  by (simp add: organize_books_by_category_def sorted_categories_def clear_books_def)

text \<open>
  C5. Placing the same pile twice in a row gives the same shelves both times: the second
  call returns the catalog that the first call returned.
\<close>

theorem organize_twice:
  assumes "shelves (room c) \<noteq> []"
  shows "\<exists>c'. organize_books_by_category c pile = Inr c' \<and>
              organize_books_by_category c' pile = Inr c'"
proof -
  let ?n = "length (shelves (room c))"
  let ?c' = "c\<lparr>room := (room c)\<lparr>shelves :=
        map (\<lambda>j. (shelves (room c) ! j)\<lparr>books :=
              dealt (tag_group pile) ?n 0 (visiting_order pile) j\<rparr>) [0..<?n]\<rparr>\<rparr>"
  have 1: "organize_books_by_category c pile = Inr ?c'"
    using assms by (rule organize_shelves)
  have ne: "shelves (room ?c') \<noteq> []" using assms by simp
  have "organize_books_by_category ?c' pile = Inr ?c'"
    by (simp add: organize_shelves [OF ne])
  with 1 show ?thesis by blast
qed

theorem organize_twice_witness:
  "shelves (room demo_catalog) \<noteq> [] \<and>
   (\<exists>c'. organize_books_by_category demo_catalog demo_pile = Inr c' \<and>
          organize_books_by_category c' demo_pile = Inr c')"
  using organize_twice [of demo_catalog demo_pile]
  by (simp add: demo_catalog_def)

text \<open>
  C1. In a room with at least one shelf, placing a pile succeeds; the shelves keep their
  names; the books on all shelves together are exactly the books of the pile, as a
  multiset (nothing lost, nothing added, duplicates kept); every book of the pile is on
  exactly one shelf; and a shelf whose position is the position modulo the number of
  shelves of no visited category is left empty.
\<close>

theorem organize_keeps_every_book:
  assumes "shelves (room c) \<noteq> []"
  shows "\<exists>c'. organize_books_by_category c pile = Inr c' \<and>
           map name (shelves (room c')) = map name (shelves (room c)) \<and>
           (\<Sum>sh\<leftarrow>shelves (room c'). mset (books sh)) = mset pile \<and>
           (\<forall>b\<in>set pile. \<exists>!j. j < length (shelves (room c')) \<and> b \<in> set (books (shelves (room c') ! j))) \<and>
           (\<forall>j<length (shelves (room c')).
               (\<forall>i<length (visiting_order pile). i mod length (shelves (room c)) \<noteq> j) \<longrightarrow>
               books (shelves (room c') ! j) = [])"
proof -
  let ?shs = "shelves (room c)"
  let ?n = "length ?shs"
  let ?cats = "visiting_order pile"
  let ?D = "dealt (tag_group pile) ?n 0 ?cats"
  let ?shs' = "map (\<lambda>j. (?shs ! j)\<lparr>books := ?D j\<rparr>) [0..<?n]"
  let ?c' = "c\<lparr>room := (room c)\<lparr>shelves := ?shs'\<rparr>\<rparr>"
  have n: "0 < ?n" using assms by simp
  have dist: "distinct ?cats" by (rule distinct_visiting_order)
  have org: "organize_books_by_category c pile = Inr ?c'"
    using assms by (rule organize_shelves)
  have names: "map name ?shs' = map name ?shs"
    by (rule nth_equalityI) simp_all
  have "(\<Sum>sh\<leftarrow>?shs'. mset (books sh)) = (\<Sum>j\<leftarrow>[0..<?n]. mset (?D j))"
    by (simp add: comp_def)
  also have "\<dots> = (\<Sum>cat\<leftarrow>?cats. mset (tag_group pile cat))"
    using n by (rule sum_dealt)
  also have "\<dots> = mset pile"
    using dist by (rule sum_tag_groups) (simp add: set_visiting_order)
  finally have total: "(\<Sum>sh\<leftarrow>?shs'. mset (books sh)) = mset pile" .
  have one: "\<exists>!j. j < length ?shs' \<and> b \<in> set (books (?shs' ! j))" if b: "b \<in> set pile" for b
  proof -
    from b have "category b \<in> set ?cats" by (simp add: set_visiting_order)
    then obtain k where k: "k < length ?cats" "?cats ! k = category b"
      by (auto simp: in_set_conv_nth)
    have "k mod ?n < ?n" using n by simp
    moreover have "b \<in> set (?D (k mod ?n))"
      using b k by (auto simp: mem_dealt [OF dist])
    ultimately have ex: "k mod ?n < length ?shs' \<and> b \<in> set (books (?shs' ! (k mod ?n)))"
      by simp
    have "j = k mod ?n" if "j < length ?shs' \<and> b \<in> set (books (?shs' ! j))" for j
    proof -
      from that have "b \<in> set (?D j)" by auto
      then show ?thesis
        using dealt_one_shelf [OF dist _ \<open>b \<in> set (?D (k mod ?n))\<close>] by blast
    qed
    with ex show ?thesis by blast
  qed
  have idle: "books (?shs' ! j) = []"
    if "j < length ?shs'" "\<forall>i<length ?cats. i mod ?n \<noteq> j" for j
    using that by (simp add: dealt_empty)
  show ?thesis
    using org names total one idle by (intro exI [of _ ?c']) simp
qed

theorem organize_keeps_every_book_witness:
  "shelves (room demo_catalog) \<noteq> [] \<and>
   (\<exists>c'. organize_books_by_category demo_catalog demo_pile = Inr c' \<and>
      map name (shelves (room c')) = map name (shelves (room demo_catalog)) \<and>
      (\<Sum>sh\<leftarrow>shelves (room c'). mset (books sh)) = mset demo_pile \<and>
      (\<forall>b\<in>set demo_pile. \<exists>!j. j < length (shelves (room c')) \<and> b \<in> set (books (shelves (room c') ! j))) \<and>
      (\<forall>j<length (shelves (room c')).
          (\<forall>i<length (visiting_order demo_pile). i mod length (shelves (room demo_catalog)) \<noteq> j) \<longrightarrow>
          books (shelves (room c') ! j) = []))"
proof -
  have h: "shelves (room demo_catalog) \<noteq> []"
    by (simp add: demo_catalog_def)
  from h organize_keeps_every_book [OF h, where pile = demo_pile] show ?thesis
    by (rule conjI)
qed

text \<open>
  C2. In a room with at least one shelf, right after placing a pile every category of
  the pile is on exactly one shelf, which holds all the books of that category (in the
  order of the pile), and \<^verbatim>\<open>verify_constraint_same_category_same_shelf\<close> raises
  nothing, in whatever order it iterates over the categories of a shelf.
\<close>

theorem organize_one_shelf_per_category:
  assumes "shelves (room c) \<noteq> []" and "\<forall>sh. set (iter sh) = categories sh"
  shows "\<exists>c'. organize_books_by_category c pile = Inr c' \<and>
           (\<forall>cat\<in>category ` set pile. \<exists>j<length (shelves (room c')).
               filter (\<lambda>b. category b = cat) (books (shelves (room c') ! j)) =
                 filter (\<lambda>b. category b = cat) pile \<and>
               (\<forall>i<length (shelves (room c')). cat \<in> categories (shelves (room c') ! i) \<longrightarrow> i = j)) \<and>
           verify_constraint_same_category_same_shelf iter c' = Inr ()"
proof -
  let ?shs = "shelves (room c)"
  let ?n = "length ?shs"
  let ?cats = "visiting_order pile"
  let ?D = "dealt (tag_group pile) ?n 0 ?cats"
  let ?shs' = "map (\<lambda>j. (?shs ! j)\<lparr>books := ?D j\<rparr>) [0..<?n]"
  let ?c' = "c\<lparr>room := (room c)\<lparr>shelves := ?shs'\<rparr>\<rparr>"
  have n: "0 < ?n" using assms(1) by simp
  have dist: "distinct ?cats" by (rule distinct_visiting_order)
  have org: "organize_books_by_category c pile = Inr ?c'"
    using assms(1) by (rule organize_shelves)
  have cats_at: "categories (?shs' ! i) = category ` set (?D i)" if "i < ?n" for i
    using that by (simp add: categories_def)
  have same: "i = j"
    if "i < ?n" "j < ?n" "cat \<in> categories (?shs' ! i)" "cat \<in> categories (?shs' ! j)" for i j cat
  proof -
    from that obtain b1 b2 where "b1 \<in> set (?D i)" "b2 \<in> set (?D j)"
        "category b1 = cat" "category b2 = cat"
      by (auto simp: categories_def)
    then show ?thesis
      using dealt_one_shelf [OF dist, of b1 pile ?n 0 i b2 j] by simp
  qed
  have group: "\<exists>j<length ?shs'.
      filter (\<lambda>b. category b = cat) (books (?shs' ! j)) = filter (\<lambda>b. category b = cat) pile \<and>
      (\<forall>i<length ?shs'. cat \<in> categories (?shs' ! i) \<longrightarrow> i = j)"
    if cat: "cat \<in> category ` set pile" for cat
  proof -
    from cat have "cat \<in> set ?cats" by (simp add: set_visiting_order)
    then obtain k where k: "k < length ?cats" "?cats ! k = cat"
      by (auto simp: in_set_conv_nth)
    let ?j = "k mod ?n"
    have j: "?j < ?n" using n by simp
    have "\<exists>k'<length ?cats. ?cats ! k' = cat \<and> (0 + k') mod ?n = ?j"
      using k by auto
    then have whole: "filter (\<lambda>b. category b = cat) (?D ?j) = tag_group pile cat"
      by (simp only: filter_dealt [OF dist] if_True)
    from cat have "tag_group pile cat \<noteq> []"
      by (auto simp: tag_group_def filter_empty_conv)
    with whole have "filter (\<lambda>b. category b = cat) (?D ?j) \<noteq> []"
      by simp
    then obtain b where "b \<in> set (?D ?j)" "category b = cat"
      by (auto simp: filter_empty_conv)
    then have here: "cat \<in> categories (?shs' ! ?j)"
      using j by (auto simp: categories_def)
    have only: "\<forall>i<length ?shs'. cat \<in> categories (?shs' ! i) \<longrightarrow> i = ?j"
    proof (intro allI impI)
      fix i assume "i < length ?shs'" "cat \<in> categories (?shs' ! i)"
      then have "i < ?n" by simp
      from same [OF this j \<open>cat \<in> categories (?shs' ! i)\<close> here] show "i = ?j" .
    qed
    have "books (?shs' ! ?j) = ?D ?j"
      using j by simp
    then have all: "filter (\<lambda>b. category b = cat) (books (?shs' ! ?j)) = filter (\<lambda>b. category b = cat) pile"
      using whole by (simp only: tag_group_def)
    have "?j < length ?shs'" using j by simp
    with all only show ?thesis by blast
  qed
  have "compatible sh1 sh2" if "sh1 \<in> set ?shs'" "sh2 \<in> set ?shs'" for sh1 sh2
  proof -
    from that obtain i j where ij: "i < ?n" "sh1 = ?shs' ! i" "j < ?n" "sh2 = ?shs' ! j"
      by (auto simp: in_set_conv_nth)
    show ?thesis
      unfolding compatible_def
    proof (intro ballI impI)
      fix cat assume "cat \<in> categories sh1" "cat \<in> categories sh2"
      with ij have "i = j" using same [of i j cat] by simp
      with ij show "name sh1 = name sh2" by simp
    qed
  qed
  then have ver: "verify_constraint_same_category_same_shelf iter ?c' = Inr ()"
    by (simp add: verify_all_compatible [OF assms(2)])
  have sh: "shelves (room ?c') = ?shs'" by simp
  show ?thesis
  proof (intro exI [of _ ?c'] conjI)
    show "organize_books_by_category c pile = Inr ?c'" by (rule org)
    show "\<forall>cat\<in>category ` set pile. \<exists>j<length (shelves (room ?c')).
               filter (\<lambda>b. category b = cat) (books (shelves (room ?c') ! j)) =
                 filter (\<lambda>b. category b = cat) pile \<and>
               (\<forall>i<length (shelves (room ?c')). cat \<in> categories (shelves (room ?c') ! i) \<longrightarrow> i = j)"
      unfolding sh using group by blast
    show "verify_constraint_same_category_same_shelf iter ?c' = Inr ()" by (rule ver)
  qed
qed

theorem organize_one_shelf_per_category_witness:
  "shelves (room demo_catalog) \<noteq> [] \<and>
   (\<forall>sh. set (category_list sh) = categories sh) \<and>
   (\<exists>c'. organize_books_by_category demo_catalog demo_pile = Inr c' \<and>
      verify_constraint_same_category_same_shelf category_list c' = Inr ())"
proof -
  have h: "shelves (room demo_catalog) \<noteq> []"
    by (simp add: demo_catalog_def)
  have it: "\<forall>sh. set (category_list sh) = categories sh"
    by (simp add: category_list_def categories_def)
  from organize_one_shelf_per_category [OF h it, where pile = demo_pile]
  have "\<exists>c'. organize_books_by_category demo_catalog demo_pile = Inr c' \<and>
      verify_constraint_same_category_same_shelf category_list c' = Inr ()"
    by blast
  with h it show ?thesis by blast
qed

section \<open>Properties of sorting\<close>



section \<open>Properties of verifying\<close>



text \<open>
  C10. The check tells shelves apart by name only: when any two shelves of different
  names share no category, it raises nothing, whatever shelves of the same name share.
\<close>

theorem verify_ignores_same_name:
  fixes c :: Catalog
  defines "shs \<equiv> shelves (room c)"
  assumes "\<forall>sh. set (iter sh) = categories sh"
      and "\<forall>j<length shs. \<forall>i<j. name (shs ! i) \<noteq> name (shs ! j) \<longrightarrow>
             categories (shs ! i) \<inter> categories (shs ! j) = {}"
  shows "verify_constraint_same_category_same_shelf iter c = Inr ()"
proof -
  have "\<not> clash shs i j cat" for i j cat
    using assms(3) unfolding clash_def by blast
  then show ?thesis
    unfolding verify_passes [OF assms(2)] shs_def by blast
qed

theorem verify_ignores_same_name_witness:
  "(\<forall>sh. set (category_list sh) = categories sh) \<and>
   name (shelves (room twin_shelves) ! 0) = name (shelves (room twin_shelves) ! 1) \<and>
   shelves (room twin_shelves) ! 0 \<noteq> shelves (room twin_shelves) ! 1 \<and>
   ''Classic'' \<in> categories (shelves (room twin_shelves) ! 0) \<inter> categories (shelves (room twin_shelves) ! 1) \<and>
   verify_constraint_same_category_same_shelf category_list twin_shelves = Inr ()"
proof -
  have names: "\<forall>j<length (shelves (room twin_shelves)). \<forall>i<j.
             name (shelves (room twin_shelves) ! i) \<noteq> name (shelves (room twin_shelves) ! j) \<longrightarrow>
             categories (shelves (room twin_shelves) ! i) \<inter> categories (shelves (room twin_shelves) ! j) = {}"
    by (simp add: twin_shelves_def less_Suc_eq)
  have facts: "name (shelves (room twin_shelves) ! 0) = name (shelves (room twin_shelves) ! 1) \<and>
     shelves (room twin_shelves) ! 0 \<noteq> shelves (room twin_shelves) ! 1 \<and>
     ''Classic'' \<in> categories (shelves (room twin_shelves) ! 0) \<inter> categories (shelves (room twin_shelves) ! 1)"
    by (simp add: twin_shelves_def categories_def mk_book_def)
  from verify_ignores_same_name [OF category_list_enumerates names] facts category_list_enumerates
  show ?thesis by blast
qed

text \<open>
  C9. Sorting only permutes the books of a shelf, so the multiset of its books and the
  set of its categories stay; \<^verbatim>\<open>sort_books_on_all_shelves\<close> keeps names, multisets
  of books and category sets shelf by shelf; and if the check passes before sorting all
  shelves, it passes after.
\<close>

theorem sort_keeps_books_and_constraint:
  fixes c :: Catalog
  defines "c' \<equiv> sort_books_on_all_shelves c"
  shows "mset (books (sort_books_by_title sh)) = mset (books sh) \<and>
   categories (sort_books_by_title sh) = categories sh \<and>
   map name (shelves (room c')) = map name (shelves (room c)) \<and>
   map (\<lambda>sh. mset (books sh)) (shelves (room c')) = map (\<lambda>sh. mset (books sh)) (shelves (room c)) \<and>
   map categories (shelves (room c')) = map categories (shelves (room c)) \<and>
   ((\<forall>sh. set (iter sh) = categories sh) \<and> (\<forall>sh. set (iter' sh) = categories sh) \<and>
      verify_constraint_same_category_same_shelf iter c = Inr ()
    \<longrightarrow> verify_constraint_same_category_same_shelf iter' c' = Inr ())"
proof -
  have 1: "mset (books (sort_books_by_title sh)) = mset (books sh)" for sh
    by (simp add: sort_books_by_title_def)
  have sh: "shelves (room c') = map sort_books_by_title (shelves (room c))"
    by (simp add: c'_def sort_books_on_all_shelves_def sort_shelves_map)
  have ver: "verify_constraint_same_category_same_shelf iter' c' = Inr ()"
    if it: "\<forall>sh. set (iter sh) = categories sh" and it': "\<forall>sh. set (iter' sh) = categories sh"
      and ok: "verify_constraint_same_category_same_shelf iter c = Inr ()"
  proof -
    from ok have "\<forall>sh1\<in>set (shelves (room c)). \<forall>sh2\<in>set (shelves (room c)). compatible sh1 sh2"
      by (simp add: verify_all_compatible [OF it])
    then show ?thesis
      by (simp add: verify_all_compatible [OF it'] sh compatible_sort_books_by_title)
  qed
  show ?thesis
    using ver by (simp add: 1 sh categories_sort_books_by_title name_sort_books_by_title comp_def)
qed

theorem sort_keeps_books_and_constraint_witness:
  "(\<forall>sh. set (category_list sh) = categories sh) \<and>
   verify_constraint_same_category_same_shelf category_list demo_placed = Inr () \<and>
   verify_constraint_same_category_same_shelf category_list (sort_books_on_all_shelves demo_placed) = Inr ()"
  using sort_keeps_books_and_constraint [where c = demo_placed and iter = category_list and iter' = category_list]
    category_list_enumerates demo_placed_verified
  by blast

section \<open>The visiting order\<close>

text \<open>
  C3, as the specification states it, fails on ties: the categories \<^verbatim>\<open>abc\<close> and
  \<^verbatim>\<open>ABC\<close> have the same lower-case form and \<^verbatim>\<open>ABC\<close> comes first in byte
  order, but in a pile that shows \<^verbatim>\<open>abc\<close> first the code visits \<^verbatim>\<open>abc\<close> first,
  so its books go to the first shelf and those of \<^verbatim>\<open>ABC\<close> to the second.
\<close>

theorem visiting_order_ties_counterexample:
  "str_lower ''abc'' = str_lower ''ABC'' \<and> ''ABC'' < ''abc'' \<and>
   claimed_order tie_pile = [''ABC'', ''abc''] \<and>
   visiting_order tie_pile = [''abc'', ''ABC''] \<and>
   organize_books_by_category two_shelves tie_pile =
     Inr \<lparr>room = \<lparr>owner = ''Bob'', shelves =
       [\<lparr>name = ''Left'', books = [mk_book ''t1'' ''First'' ''A'' ''abc'']\<rparr>,
        \<lparr>name = ''Right'', books = [mk_book ''t2'' ''Second'' ''B'' ''ABC'']\<rparr>]\<rparr>\<rparr>"
  by code_simp


text \<open>
  C3, amended. The categories are visited in ascending order of their lower-case form,
  each once, and categories of equal lower-case form in the order in which they first
  occur in the pile (the sort is stable); in a room with shelves the whole group of the
  \<open>i\<close>-th category goes to the shelf at position \<open>i mod n\<close>, so that shelf \<open>j\<close> holds
  the groups of the categories \<open>j\<close>, \<open>j + n\<close>, ... one after the other; for the
  demonstration pile and the shelves Left, Right, Top the order is Classic, Dystopian,
  Mystery, Programming, Sci-Fi, and Left gets Classic and Programming, Right gets
  Dystopian and Sci-Fi, Top gets Mystery only.
\<close>

theorem organize_round_robin:
  fixes c :: Catalog and pile :: "Book list"
  defines "cats \<equiv> visiting_order pile" and "n \<equiv> length (shelves (room c))"
  shows "cats = sort_key str_lower (first_seen (map category pile)) \<and>
   sorted (map str_lower cats) \<and> distinct cats \<and> set cats = category ` set pile \<and>
   (\<forall>k. filter (\<lambda>cat. str_lower cat = k) cats =
        filter (\<lambda>cat. str_lower cat = k) (first_seen (map category pile))) \<and>
   (shelves (room c) \<noteq> [] \<longrightarrow>
      (\<exists>c'. organize_books_by_category c pile = Inr c' \<and> length (shelves (room c')) = n \<and>
         (\<forall>i<length cats.
            filter (\<lambda>b. category b = cats ! i) (books (shelves (room c') ! (i mod n))) =
            tag_group pile (cats ! i)) \<and>
         (\<forall>j<n. books (shelves (room c') ! j) =
            concat (map (\<lambda>i. tag_group pile (cats ! i)) (filter (\<lambda>i. i mod n = j) [0..<length cats]))))) \<and>
   visiting_order demo_pile = [''Classic'', ''Dystopian'', ''Mystery'', ''Programming'', ''Sci-Fi''] \<and>
   organize_books_by_category demo_catalog demo_pile = Inr demo_placed"
proof -
  let ?cats = "visiting_order pile"
  have order: "?cats = sort_key str_lower (first_seen (map category pile))"
    by (rule visiting_order_first_seen)
  have srt: "sorted (map str_lower ?cats)"
    by (simp add: order)
  have stable: "\<forall>k. filter (\<lambda>cat. str_lower cat = k) ?cats =
        filter (\<lambda>cat. str_lower cat = k) (first_seen (map category pile))"
    by (simp add: order sort_key_stable)
  have placed: "\<exists>c'. organize_books_by_category c pile = Inr c' \<and>
         length (shelves (room c')) = length (shelves (room c)) \<and>
         (\<forall>i<length ?cats.
            filter (\<lambda>b. category b = ?cats ! i)
              (books (shelves (room c') ! (i mod length (shelves (room c))))) =
            tag_group pile (?cats ! i)) \<and>
         (\<forall>j<length (shelves (room c)).
            books (shelves (room c') ! j) =
            concat (map (\<lambda>i. tag_group pile (?cats ! i))
              (filter (\<lambda>i. i mod length (shelves (room c)) = j) [0..<length ?cats])))"
    if ne: "shelves (room c) \<noteq> []"
  proof -
    let ?shs = "shelves (room c)"
    let ?n = "length ?shs"
    let ?D = "dealt (tag_group pile) ?n 0 ?cats"
    let ?shs' = "map (\<lambda>j. (?shs ! j)\<lparr>books := ?D j\<rparr>) [0..<?n]"
    let ?c' = "c\<lparr>room := (room c)\<lparr>shelves := ?shs'\<rparr>\<rparr>"
    have n: "0 < ?n" using ne by simp
    have org: "organize_books_by_category c pile = Inr ?c'"
      using ne by (rule organize_shelves)
    have sh: "shelves (room ?c') = ?shs'" by simp
    have bk: "books (?shs' ! j) = ?D j" if "j < ?n" for j
      using that by simp
    have whole: "filter (\<lambda>b. category b = ?cats ! i) (books (?shs' ! (i mod ?n))) = tag_group pile (?cats ! i)"
      if i: "i < length ?cats" for i
    proof -
      have "\<exists>k<length ?cats. ?cats ! k = ?cats ! i \<and> (0 + k) mod ?n = i mod ?n"
        using i by auto
      then have "filter (\<lambda>b. category b = ?cats ! i) (?D (i mod ?n)) = tag_group pile (?cats ! i)"
        by (simp only: filter_dealt [OF distinct_visiting_order] if_True)
      moreover have "i mod ?n < ?n" using n by simp
      ultimately show ?thesis using bk [of "i mod ?n"] by simp
    qed
    have each: "books (?shs' ! j) =
        concat (map (\<lambda>i. tag_group pile (?cats ! i)) (filter (\<lambda>i. i mod ?n = j) [0..<length ?cats]))"
      if "j < ?n" for j
      using bk [OF that] by (simp only: dealt_from_0)
    show ?thesis
    proof (intro exI [of _ ?c'] conjI)
      show "organize_books_by_category c pile = Inr ?c'" by (rule org)
      show "length (shelves (room ?c')) = ?n" by simp
      show "\<forall>i<length ?cats.
            filter (\<lambda>b. category b = ?cats ! i) (books (shelves (room ?c') ! (i mod ?n))) =
            tag_group pile (?cats ! i)"
        unfolding sh using whole by blast
      show "\<forall>j<?n. books (shelves (room ?c') ! j) =
            concat (map (\<lambda>i. tag_group pile (?cats ! i)) (filter (\<lambda>i. i mod ?n = j) [0..<length ?cats]))"
        unfolding sh using each by blast
    qed
  qed
  show ?thesis
    unfolding cats_def n_def
    using order srt stable placed distinct_visiting_order [of pile] set_visiting_order [of pile]
      demo_visiting_order demo_organized
    by blast
qed

theorem organize_round_robin_witness:
  "shelves (room two_shelves) \<noteq> [] \<and>
   (\<exists>c'. organize_books_by_category two_shelves tie_pile = Inr c' \<and>
      length (shelves (room c')) = length (shelves (room two_shelves)))"
proof -
  have h: "shelves (room two_shelves) \<noteq> []"
    by (simp add: two_shelves_def)
  with organize_round_robin [where pile = tie_pile and c = two_shelves] show ?thesis
    by blast
qed

end
